theory Spec2Isabelle
  imports Complex_Main "HOL-Library.Word"
begin

unbundle bit_operations_syntax

section \<open>Data model of \<open>pkg/device_plugin/server/server.go\<close>\<close>

text \<open>
  The device plugin server keeps a slice of \<open>TotalDevicesCount\<close> device pointers and an
  integer cursor \<open>nextDevice\<close>. Go's \<open>int\<close> is modelled as \<open>int\<close>: the cursor is only
  ever set to a slice length, incremented below \<open>TotalDevicesCount\<close> and decremented above
  zero, so no machine overflow is involved.
\<close>

definition TotalDevicesCount :: int where
  "TotalDevicesCount = 40"

text \<open>
  \<open>pluginapi.Device\<close> (kubelet device plugin API v1beta1): the health of a device is a
  string, one of the two constants of that package.
\<close>

definition Healthy :: string where
  "Healthy = ''Healthy''"

definition Unhealthy :: string where
  "Unhealthy = ''Unhealthy''"

record Device =
  ID :: string
  Health :: string

text \<open>
  Errors as values. \<open>GoError\<close> is an \<open>error\<close> value returned by a call (its message);
  the two panics are the Go runtime's; \<open>FatalExit\<close> is the process exit of \<open>log.Fatal\<close>.
\<close>

datatype error =
    GoError string
  | PanicIndexOutOfRange int nat
  | PanicNilDereference
  | FatalExit

text \<open>
  The fields of \<open>MultusNicServer\<close> that hold program state. \<open>devices\<close> is a slice of
  pointers: \<open>None\<close> is the nil pointer. The gRPC server, the \<open>notify\<close> channel and the
  context are handles of the environment: what is sent on \<open>notify\<close> is returned by the
  functions below as a list of the values sent, and what the channels and the context deliver
  is an input of the loops.
\<close>

record MultusNicServer =
  devices :: "Device option list"
  nextDevice :: int
  restartFlag :: bool

definition NewMultusNicServer :: MultusNicServer where
  "NewMultusNicServer =
     \<lparr>devices = replicate (nat TotalDevicesCount) None, nextDevice = 0, restartFlag = False\<rparr>"

section \<open>\<open>strconv.Itoa\<close>\<close>

definition digit :: "nat \<Rightarrow> char" where
  "digit d = ''0123456789'' ! d"

fun utoa :: "nat \<Rightarrow> string" where
  "utoa n = (if n < 10 then [digit n] else utoa (n div 10) @ [digit (n mod 10)])"

declare utoa.simps [simp del]

definition Itoa :: "int \<Rightarrow> string" where
  "Itoa i = (if i < 0 then CHR ''-'' # utoa (nat (- i)) else utoa (nat i))"

section \<open>\<open>listDevice\<close>\<close>

text \<open>
  \<open>s.devices[i] = device\<close>: a store into the slice, which panics out of range.
\<close>

definition storeDevice :: "int \<Rightarrow> Device \<Rightarrow> MultusNicServer \<Rightarrow> error + MultusNicServer" where
  "storeDevice i d s =
     (if i < 0 \<or> int (length (devices s)) \<le> i
      then Inl (PanicIndexOutOfRange i (length (devices s)))
      else Inr (s\<lparr>devices := (devices s)[nat i := Some d]\<rparr>))"

text \<open>The \<open>for i := 0; i < TotalDevicesCount; i++\<close> loop of \<open>listDevice\<close>, from \<open>i\<close> on.\<close>

function listDevice_loop :: "int \<Rightarrow> MultusNicServer \<Rightarrow> error + MultusNicServer" where
  "listDevice_loop i s =
     (if i < TotalDevicesCount then
        (let deviceName = Itoa i;
             device = \<lparr>ID = deviceName, Health = Healthy\<rparr>;
             device = (if i < nextDevice s then device\<lparr>Health := Unhealthy\<rparr> else device)
         in case storeDevice i device s of
              Inl e \<Rightarrow> Inl e
            | Inr s' \<Rightarrow> listDevice_loop (i + 1) s')
      else Inr s)"
  by pat_completeness auto
termination
  by (relation "measure (\<lambda>(i, s). nat (TotalDevicesCount - i))") auto

declare listDevice_loop.simps [simp del]

text \<open>
  \<open>listDevice\<close>. The first argument is what \<open>ioutil.ReadDir\<close> returned for the device
  directory: an error, or the directory's entries (by name).
\<close>

definition listDevice :: "string + string list \<Rightarrow> MultusNicServer \<Rightarrow> error + MultusNicServer" where
  "listDevice readDir s =
     (case readDir of
        Inl err \<Rightarrow> Inl (GoError err)
      | Inr dir \<Rightarrow> listDevice_loop 0 (s\<lparr>nextDevice := int (length dir)\<rparr>))"

section \<open>\<open>watchDevice\<close>\<close>

text \<open>\<open>fsnotify.Op\<close> is a \<open>uint32\<close> bit mask; an \<open>fsnotify.Event\<close> has a name and an op.\<close>

type_synonym Op = "32 word"

definition Create :: Op where "Create = push_bit 0 1"
definition Write :: Op where "Write = push_bit 1 1"
definition Remove :: Op where "Remove = push_bit 2 1"
definition Rename :: Op where "Rename = push_bit 3 1"
definition Chmod :: Op where "Chmod = push_bit 4 1"

record Event =
  Name :: string
  Op :: Op

text \<open>
  \<open>s.devices[i].Health = h\<close>: the index is checked first, then the pointer read from the
  slice is dereferenced.
\<close>

definition setHealth :: "int \<Rightarrow> string \<Rightarrow> MultusNicServer \<Rightarrow> error + MultusNicServer" where
  "setHealth i h s =
     (if i < 0 \<or> int (length (devices s)) \<le> i
      then Inl (PanicIndexOutOfRange i (length (devices s)))
      else case devices s ! nat i of
             None \<Rightarrow> Inl PanicNilDereference
           | Some d \<Rightarrow> Inr (s\<lparr>devices := (devices s)[nat i := Some (d\<lparr>Health := h\<rparr>)]\<rparr>))"

text \<open>
  The body of the \<open>case event, ok := <-w.Events\<close> branch for a delivered event
  (\<open>ok = true\<close>). The result is the new state and the values sent on \<open>s.notify\<close>, in
  order.
\<close>

definition watchDevice_event ::
  "Event \<Rightarrow> MultusNicServer \<Rightarrow> error + MultusNicServer \<times> bool list" where
  "watchDevice_event event s =
     (if Op event AND Create = Create then
        (if nextDevice s < TotalDevicesCount then
           (case setHealth (nextDevice s) Unhealthy s of
              Inl e \<Rightarrow> Inl e
            | Inr s' \<Rightarrow> Inr (s'\<lparr>nextDevice := nextDevice s' + 1\<rparr>, [True]))
         else Inr (s, [True]))
      else if Op event AND Remove = Remove then
        (if nextDevice s > 0 then
           (case setHealth (nextDevice s - 1) Healthy s of
              Inl e \<Rightarrow> Inl e
            | Inr s' \<Rightarrow> Inr (s'\<lparr>nextDevice := nextDevice s' - 1\<rparr>, [True]))
         else Inr (s, [True]))
      else Inr (s, []))"

text \<open>
  The \<open>for { select { ... } }\<close> loop of the goroutine started by \<open>watchDevice\<close>. Its
  input is the sequence of \<open>select\<close> cases taken, each with what was received:
  \<open>RecvEvent None\<close> and \<open>RecvError None\<close> are receives from a closed channel
  (\<open>ok = false\<close>), \<open>CtxDone\<close> is the receive from \<open>s.ctx.Done()\<close>. When the input is
  used up the loop is still running (blocked in \<open>select\<close>).
\<close>

datatype select_case =
    RecvEvent "Event option"
  | RecvError "string option"
  | CtxDone

datatype loop_status = LoopRunning | LoopReturned

fun watchDevice_loop ::
  "select_case list \<Rightarrow> MultusNicServer \<Rightarrow> bool list \<Rightarrow>
   error + loop_status \<times> MultusNicServer \<times> bool list" where
  "watchDevice_loop [] s out = Inr (LoopRunning, s, out)"
| "watchDevice_loop (RecvEvent None # cs) s out = watchDevice_loop cs s out"
| "watchDevice_loop (RecvEvent (Some event) # cs) s out =
     (case watchDevice_event event s of
        Inl e \<Rightarrow> Inl e
      | Inr (s', sent) \<Rightarrow> watchDevice_loop cs s' (out @ sent))"
| "watchDevice_loop (RecvError None # cs) s out = Inr (LoopReturned, s, out)"
| "watchDevice_loop (RecvError (Some err) # cs) s out = watchDevice_loop cs s out"
| "watchDevice_loop (CtxDone # cs) s out = watchDevice_loop cs s out"

text \<open>The two kinds of event the loop acts on, as its two tests read them.\<close>

definition isCreate :: "Event \<Rightarrow> bool" where
  "isCreate event \<longleftrightarrow> Op event AND Create = Create"

definition isRemove :: "Event \<Rightarrow> bool" where
  "isRemove event \<longleftrightarrow> Op event AND Create \<noteq> Create \<and> Op event AND Remove = Remove"

section \<open>The registry invariant\<close>

text \<open>
  The device that \<open>listDevice\<close> builds for index \<open>i\<close> when the cursor is \<open>n\<close>, and the
  invariant of the registry: the cursor is within \<open>[0, TotalDevicesCount]\<close>, there are
  \<open>TotalDevicesCount\<close> devices, none nil, and the device at \<open>i\<close> is \<open>Unhealthy\<close> when
  \<open>i\<close> is below the cursor and \<open>Healthy\<close> otherwise.
\<close>

definition mkDevice :: "int \<Rightarrow> nat \<Rightarrow> Device option" where
  "mkDevice n i =
     Some \<lparr>ID = Itoa (int i), Health = (if int i < n then Unhealthy else Healthy)\<rparr>"

definition registry_inv :: "MultusNicServer \<Rightarrow> bool" where
  "registry_inv s \<longleftrightarrow>
     0 \<le> nextDevice s \<and> nextDevice s \<le> TotalDevicesCount \<and>
     map (map_option Health) (devices s) =
       map (\<lambda>i. Some (if int i < nextDevice s then Unhealthy else Healthy))
         [0..<nat TotalDevicesCount]"

text \<open>
  The state in which \<open>listDevice\<close> leaves a new server when the device directory has
  \<open>n\<close> entries (lemma \<open>listDevice_New\<close> below).
\<close>

definition registry :: "int \<Rightarrow> MultusNicServer" where
  "registry n =
     \<lparr>devices = map (mkDevice n) [0..<nat TotalDevicesCount], nextDevice = n,
      restartFlag = False\<rparr>"

section \<open>\<open>ListAndWatch\<close>\<close>

record ListAndWatchResponse =
  Devices :: "Device option list"

text \<open>
  The \<open>select\<close> cases of the session loop: a value received on \<open>s.notify\<close>, with the
  state of the server at that moment and the result of the \<open>srv.Send\<close> that follows
  (\<open>None\<close> is \<open>nil\<close>), or the receive from \<open>s.ctx.Done()\<close>. The handler's result is
  every send it attempted, with its result, and whether it returned.
\<close>

datatype law_select =
    NotifyRecv MultusNicServer "string option"
  | DoneRecv

datatype law_status = LawWaiting | LawReturned "string option"

fun ListAndWatch_loop ::
  "law_select list \<Rightarrow> (ListAndWatchResponse \<times> string option) list \<Rightarrow>
   (ListAndWatchResponse \<times> string option) list \<times> law_status" where
  "ListAndWatch_loop [] sends = (sends, LawWaiting)"
| "ListAndWatch_loop (NotifyRecv s sendResult # sel) sends =
     ListAndWatch_loop sel (sends @ [(\<lparr>Devices = devices s\<rparr>, sendResult)])"
| "ListAndWatch_loop (DoneRecv # sel) sends = (sends, LawReturned None)"

definition ListAndWatch ::
  "string option \<Rightarrow> law_select list \<Rightarrow> MultusNicServer \<Rightarrow>
   (ListAndWatchResponse \<times> string option) list \<times> law_status" where
  "ListAndWatch firstSend sel s =
     (case firstSend of
        Some err \<Rightarrow> ([(\<lparr>Devices = devices s\<rparr>, Some err)], LawReturned (Some err))
      | None \<Rightarrow> ListAndWatch_loop sel [(\<lparr>Devices = devices s\<rparr>, None)])"

section \<open>\<open>Allocate\<close>\<close>

text \<open>\<open>strings.Join\<close>.\<close>

fun Join :: "string list \<Rightarrow> string \<Rightarrow> string" where
  "Join [] sep = []"
| "Join [x] sep = x"
| "Join (x # y # ys) sep = x @ sep @ Join (y # ys) sep"

record ContainerAllocateRequest =
  DevicesIDs :: "string list"

record AllocateRequest =
  ContainerRequests :: "ContainerAllocateRequest list"

record ContainerAllocateResponse =
  Envs :: "string \<rightharpoonup> string"

record AllocateResponse =
  ContainerResponses :: "ContainerAllocateResponse list"

text \<open>The \<open>for _, req := range reqs.ContainerRequests\<close> loop.\<close>

fun Allocate_loop ::
  "ContainerAllocateRequest list \<Rightarrow> AllocateResponse \<Rightarrow> AllocateResponse" where
  "Allocate_loop [] resps = resps"
| "Allocate_loop (req # reqs) resps =
     (let resp = \<lparr>Envs = [''MULTUS_NICS'' \<mapsto> Join (DevicesIDs req) '','']\<rparr>
      in Allocate_loop reqs (resps\<lparr>ContainerResponses := ContainerResponses resps @ [resp]\<rparr>))"

text \<open>
  \<open>Allocate\<close> is a method of the server: the model returns the server with the response,
  so that what the call does to the server is part of the result.
\<close>

definition Allocate ::
  "AllocateRequest \<Rightarrow> MultusNicServer \<Rightarrow> (string + AllocateResponse) \<times> MultusNicServer" where
  "Allocate reqs s =
     (Inr (Allocate_loop (ContainerRequests reqs) \<lparr>ContainerResponses = []\<rparr>), s)"

section \<open>\<open>Run\<close>\<close>

text \<open>
  The serve loop. Clock readings are nanoseconds as integers; \<open>Duration.Seconds\<close> is the
  same duration in seconds. Go computes it in \<open>float64\<close>; the rounding does not change the
  comparison with 3600, since a whole number of seconds is exact and one nanosecond more is
  far above the spacing of \<open>float64\<close> values there.
\<close>

definition Seconds :: "int \<Rightarrow> real" where
  "Seconds d = real_of_int d / 1000000000"

record serve_state =
  lastCrashTime :: int
  restartCount :: int

text \<open>
  What the loop does once \<open>s.srv.Serve\<close> has returned an error: \<open>since\<close> is the clock
  read by \<open>time.Since\<close>, \<open>now\<close> the clock read by the \<open>time.Now\<close> after it.
\<close>

definition serve_crash :: "int \<Rightarrow> int \<Rightarrow> serve_state \<Rightarrow> error + serve_state" where
  "serve_crash since now st =
     (if restartCount st > 5 then Inl FatalExit
      else
        (let timeSinceLastCrash = Seconds (since - lastCrashTime st);
             st = st\<lparr>lastCrashTime := now\<rparr>
         in if timeSinceLastCrash > 3600
            then Inr (st\<lparr>restartCount := 1\<rparr>)
            else Inr (st\<lparr>restartCount := restartCount st + 1\<rparr>)))"

text \<open>
  The results of the successive calls of \<open>s.srv.Serve\<close>: \<open>nil\<close>, or an error with the
  two clock readings that follow it. When the input is used up, the last call of \<open>Serve\<close>
  has not returned.
\<close>

datatype serve_result = ServeNil | ServeErr string int int

datatype serve_status = ServeServing | ServeBreak | ServeFatal

fun serve_loop :: "serve_result list \<Rightarrow> serve_state \<Rightarrow> serve_status \<times> serve_state" where
  "serve_loop [] st = (ServeServing, st)"
| "serve_loop (ServeNil # rs) st = (ServeBreak, st)"
| "serve_loop (ServeErr err since now # rs) st =
     (case serve_crash since now st of
        Inl e \<Rightarrow> (ServeFatal, st)
      | Inr st' \<Rightarrow> serve_loop rs st')"

text \<open>The goroutine: \<open>start\<close> is the clock read by the first \<open>time.Now\<close>.\<close>

definition serve :: "int \<Rightarrow> serve_result list \<Rightarrow> serve_status \<times> serve_state" where
  "serve start rs = serve_loop rs \<lparr>lastCrashTime = start, restartCount = 0\<rparr>"

text \<open>
  A run of rapid failures, for the statements about the loop: every call of \<open>Serve\<close>
  fails, and \<open>time.Since\<close> finds each failure at most one hour after the clock reading
  kept from the one before (\<open>prev\<close>; for the first failure, the start of the loop).
\<close>

fun rapid :: "int \<Rightarrow> serve_result list \<Rightarrow> bool" where
  "rapid prev [] = True"
| "rapid prev (ServeNil # rs) = False"
| "rapid prev (ServeErr err since now # rs) = (Seconds (since - prev) \<le> 3600 \<and> rapid now rs)"

text \<open>
  \<open>Run\<close>, with the results of its calls into the system as input. The two goroutines it
  starts run apart from it (\<open>watchDevice_loop\<close>, \<open>serve\<close>). The result is \<open>Inl\<close> when
  the process ends inside \<open>Run\<close>, and otherwise the returned error (\<open>None\<close> is \<open>nil\<close>)
  with the server.
\<close>

datatype unlink_result = UnlinkNil | UnlinkNotExist string | UnlinkErr string

record run_env =
  readDir :: "string + string list"
  unlink :: unlink_result
  listen :: "string option"
  dial :: "string option"

definition Run :: "run_env \<Rightarrow> MultusNicServer \<Rightarrow> error + string option \<times> MultusNicServer" where
  "Run env s =
     (case listDevice (readDir env) s of
        Inl (GoError err) \<Rightarrow> Inl FatalExit
      | Inl panic \<Rightarrow> Inl panic
      | Inr s' \<Rightarrow>
          (case unlink env of
             UnlinkErr err \<Rightarrow> Inr (Some err, s')
           | _ \<Rightarrow>
               (case listen env of
                  Some err \<Rightarrow> Inr (Some err, s')
                | None \<Rightarrow>
                    (case dial env of
                       Some err \<Rightarrow> Inr (Some err, s')
                     | None \<Rightarrow> Inr (None, s')))))"

section \<open>Initialisation: \<open>listDevice\<close> in closed form\<close>

lemma Healthy_neq_Unhealthy: "Healthy \<noteq> Unhealthy"
  by (simp add: Healthy_def Unhealthy_def)

lemma listDevice_loop_closed:
  "0 \<le> i \<Longrightarrow> i \<le> TotalDevicesCount \<Longrightarrow> int (length (devices s)) = TotalDevicesCount \<Longrightarrow>
   listDevice_loop i s =
     Inr (s\<lparr>devices := take (nat i) (devices s) @ map (mkDevice (nextDevice s)) [nat i..<nat TotalDevicesCount]\<rparr>)"
proof (induction i s rule: listDevice_loop.induct)
  case (1 i s)
  show ?case
  proof (cases "i < TotalDevicesCount")
    case False
    with 1 have "i = TotalDevicesCount" by simp
    then show ?thesis using 1(4)
      by (subst listDevice_loop.simps) simp
  next
    case True
    define d where "d = \<lparr>ID = Itoa i, Health = (if i < nextDevice s then Unhealthy else Healthy)\<rparr>"
    define s' where "s' = s\<lparr>devices := (devices s)[nat i := Some d]\<rparr>"
    have st: "storeDevice i d s = Inr s'"
      using True 1(2,4) by (simp add: storeDevice_def s'_def)
    have step: "listDevice_loop i s = listDevice_loop (i + 1) s'"
      using True st by (subst listDevice_loop.simps) (auto simp: Let_def d_def)
    have ih: "listDevice_loop (i + 1) s' =
       Inr (s'\<lparr>devices := take (nat (i + 1)) (devices s') @ map (mkDevice (nextDevice s')) [nat (i + 1)..<nat TotalDevicesCount]\<rparr>)"
      using 1(1)[OF True refl refl refl, of s'] True 1(2,4) st
      by (auto simp: s'_def d_def Let_def)
    have len: "nat i < length (devices s)" using True 1(2,4) by simp
    have tk: "take (nat (i + 1)) (devices s') = take (nat i) (devices s) @ [Some d]"
      using len 1(2) by (simp add: s'_def nat_add_distrib take_Suc_conv_app_nth)
    have up: "[nat i..<nat TotalDevicesCount] = nat i # [nat (i + 1)..<nat TotalDevicesCount]"
      using True 1(2) by (simp add: upt_conv_Cons nat_add_distrib)
    have mk: "mkDevice (nextDevice s) (nat i) = Some d"
      using 1(2) by (simp add: mkDevice_def d_def)
    show ?thesis
      unfolding step ih tk up by (simp add: s'_def mk)
  qed
qed

lemma listDevice_closed:
  assumes "int (length (devices s)) = TotalDevicesCount"
  shows "listDevice (Inr dir) s =
     Inr (s\<lparr>nextDevice := int (length dir),
            devices := map (mkDevice (int (length dir))) [0..<nat TotalDevicesCount]\<rparr>)"
  using assms listDevice_loop_closed [of 0 "s\<lparr>nextDevice := int (length dir)\<rparr>"]
  by (simp add: listDevice_def TotalDevicesCount_def)

lemma listDevice_New:
  "listDevice (Inr dir) NewMultusNicServer = Inr (registry (int (length dir)))"
  by (subst listDevice_closed)
     (simp_all add: NewMultusNicServer_def TotalDevicesCount_def registry_def)

lemma listDevice_error:
  "listDevice (Inl err) s = Inl (GoError err)"
  by (simp add: listDevice_def)

lemma registry_inv_registry:
  "0 \<le> n \<Longrightarrow> n \<le> TotalDevicesCount \<Longrightarrow> registry_inv (registry n)"
  by (simp add: registry_inv_def mkDevice_def registry_def)

lemma registry_inv_listDevice:
  assumes "int (length dir) \<le> TotalDevicesCount"
      and "listDevice (Inr dir) NewMultusNicServer = Inr s"
  shows "registry_inv s"
  using assms by (auto simp: listDevice_New intro: registry_inv_registry)

lemma registry_inv_length:
  "registry_inv s \<Longrightarrow> int (length (devices s)) = TotalDevicesCount"
proof -
  assume "registry_inv s"
  then have "length (map (map_option Health) (devices s)) = length [0..<nat TotalDevicesCount]"
    unfolding registry_inv_def by (metis length_map)
  then show ?thesis by (simp add: TotalDevicesCount_def)
qed

lemma registry_inv_nth:
  assumes "registry_inv s" "i < nat TotalDevicesCount"
  shows "\<exists>d. devices s ! i = Some d \<and> Health d = (if int i < nextDevice s then Unhealthy else Healthy)"
proof -
  have len: "i < length (devices s)"
    using registry_inv_length [OF assms(1)] assms(2) by simp
  have "map (map_option Health) (devices s) ! i =
        map (\<lambda>i. Some (if int i < nextDevice s then Unhealthy else Healthy)) [0..<nat TotalDevicesCount] ! i"
    using assms(1) by (simp add: registry_inv_def)
  then have "map_option Health (devices s ! i) = Some (if int i < nextDevice s then Unhealthy else Healthy)"
    using len assms(2) by simp
  then show ?thesis by (cases "devices s ! i") auto
qed

text \<open>The reading of the invariant by index: the device at i is Unhealthy iff i is below the cursor.\<close>

lemma registry_inv_iff:
  assumes "registry_inv s" "i < nat TotalDevicesCount"
  shows "\<exists>d. devices s ! i = Some d \<and> (Health d = Unhealthy \<longleftrightarrow> int i < nextDevice s)
          \<and> (Health d = Healthy \<longleftrightarrow> nextDevice s \<le> int i)"
  using registry_inv_nth [OF assms] Healthy_neq_Unhealthy by auto

section \<open>The watcher's event step\<close>

lemma isRemove_not_Create: "isRemove ev \<Longrightarrow> Op ev AND Create \<noteq> Create"
  by (simp add: isRemove_def)

lemma watchDevice_event_create_full:
  "isCreate ev \<Longrightarrow> TotalDevicesCount \<le> nextDevice s \<Longrightarrow> watchDevice_event ev s = Inr (s, [True])"
  by (simp add: watchDevice_event_def isCreate_def)

lemma watchDevice_event_remove_empty:
  "isRemove ev \<Longrightarrow> nextDevice s \<le> 0 \<Longrightarrow> watchDevice_event ev s = Inr (s, [True])"
  by (simp add: watchDevice_event_def isRemove_def)

lemma watchDevice_event_other:
  "\<not> isCreate ev \<Longrightarrow> \<not> isRemove ev \<Longrightarrow> watchDevice_event ev s = Inr (s, [])"
  by (simp add: watchDevice_event_def isRemove_def isCreate_def)

lemma setHealth_no_bounds_panic:
  "0 \<le> i \<Longrightarrow> i < int (length (devices s)) \<Longrightarrow> setHealth i h s \<noteq> Inl (PanicIndexOutOfRange j n)"
  by (simp add: setHealth_def split: option.splits)

lemma watchDevice_event_in_bounds:
  assumes "int (length (devices s)) = TotalDevicesCount"
      and "0 \<le> nextDevice s" and "nextDevice s \<le> TotalDevicesCount"
  shows "watchDevice_event ev s \<noteq> Inl (PanicIndexOutOfRange j n)"
proof -
  have c: "nextDevice s < TotalDevicesCount \<Longrightarrow>
           setHealth (nextDevice s) Unhealthy s \<noteq> Inl (PanicIndexOutOfRange j n)"
    using assms by (intro setHealth_no_bounds_panic) simp_all
  have r: "0 < nextDevice s \<Longrightarrow>
           setHealth (nextDevice s - 1) Healthy s \<noteq> Inl (PanicIndexOutOfRange j n)"
    using assms by (intro setHealth_no_bounds_panic) simp_all
  show ?thesis
    using c r by (auto simp: watchDevice_event_def split: sum.splits)
qed

lemma watchDevice_event_create_below:
  "nextDevice s < 0 \<Longrightarrow> isCreate ev \<Longrightarrow> int (length (devices s)) = TotalDevicesCount \<Longrightarrow>
   watchDevice_event ev s = Inl (PanicIndexOutOfRange (nextDevice s) (length (devices s)))"
  by (simp add: watchDevice_event_def isCreate_def setHealth_def TotalDevicesCount_def)

lemma watchDevice_event_remove_above:
  "TotalDevicesCount < nextDevice s \<Longrightarrow> isRemove ev \<Longrightarrow> int (length (devices s)) = TotalDevicesCount \<Longrightarrow>
   watchDevice_event ev s = Inl (PanicIndexOutOfRange (nextDevice s - 1) (length (devices s)))"
  by (simp add: watchDevice_event_def isRemove_def setHealth_def TotalDevicesCount_def)

lemma setHealth_inv:
  assumes "registry_inv s" "0 \<le> i" "i < TotalDevicesCount"
  shows "\<exists>d. devices s ! nat i = Some d \<and>
             Health d = (if i < nextDevice s then Unhealthy else Healthy) \<and>
             setHealth i h s = Inr (s\<lparr>devices := (devices s)[nat i := Some (d\<lparr>Health := h\<rparr>)]\<rparr>)"
proof -
  have len: "int (length (devices s)) = TotalDevicesCount"
    by (rule registry_inv_length [OF assms(1)])
  obtain d where d: "devices s ! nat i = Some d"
      "Health d = (if int (nat i) < nextDevice s then Unhealthy else Healthy)"
    using registry_inv_nth [OF assms(1), of "nat i"] assms(2,3) by auto
  have "setHealth i h s = Inr (s\<lparr>devices := (devices s)[nat i := Some (d\<lparr>Health := h\<rparr>)]\<rparr>)"
    using len assms(2,3) d(1) by (simp add: setHealth_def)
  with d assms(2) show ?thesis by auto
qed

lemma map_Health_update:
  "map (map_option Health) (xs[k := Some d]) = (map (map_option Health) xs)[k := Some (Health d)]"
  by (simp add: map_update)

lemma marks_update_up:
  assumes "0 \<le> n" "n < N"
  shows "(map (\<lambda>i. Some (if int i < n then Unhealthy else Healthy)) [0..<nat N])[nat n := Some Unhealthy] =
         map (\<lambda>i. Some (if int i < n + 1 then Unhealthy else Healthy)) [0..<nat N]"
  using assms by (auto simp: list_eq_iff_nth_eq nth_list_update)

lemma marks_update_down:
  assumes "0 < n" "n \<le> N"
  shows "(map (\<lambda>i. Some (if int i < n then Unhealthy else Healthy)) [0..<nat N])[nat (n - 1) := Some Healthy] =
         map (\<lambda>i. Some (if int i < n - 1 then Unhealthy else Healthy)) [0..<nat N]"
  using assms by (auto simp: list_eq_iff_nth_eq nth_list_update)

lemma watchDevice_event_create:
  assumes "registry_inv s" "nextDevice s < TotalDevicesCount" "isCreate ev"
  shows "\<exists>d. devices s ! nat (nextDevice s) = Some d \<and> Health d = Healthy \<and>
         watchDevice_event ev s =
           Inr (s\<lparr>devices := (devices s)[nat (nextDevice s) := Some (d\<lparr>Health := Unhealthy\<rparr>)],
                  nextDevice := nextDevice s + 1\<rparr>, [True])"
proof -
  have n0: "0 \<le> nextDevice s" using assms(1) by (simp add: registry_inv_def)
  obtain d where d: "devices s ! nat (nextDevice s) = Some d" "Health d = Healthy"
     "setHealth (nextDevice s) Unhealthy s =
        Inr (s\<lparr>devices := (devices s)[nat (nextDevice s) := Some (d\<lparr>Health := Unhealthy\<rparr>)]\<rparr>)"
    using setHealth_inv [OF assms(1) n0 assms(2), of Unhealthy] by auto
  have "watchDevice_event ev s =
           Inr (s\<lparr>devices := (devices s)[nat (nextDevice s) := Some (d\<lparr>Health := Unhealthy\<rparr>)],
                  nextDevice := nextDevice s + 1\<rparr>, [True])"
    using assms(2,3) d(3) by (simp add: watchDevice_event_def isCreate_def)
  with d show ?thesis by blast
qed

lemma watchDevice_event_remove:
  assumes "registry_inv s" "0 < nextDevice s" "isRemove ev"
  shows "\<exists>d. devices s ! nat (nextDevice s - 1) = Some d \<and> Health d = Unhealthy \<and>
         watchDevice_event ev s =
           Inr (s\<lparr>devices := (devices s)[nat (nextDevice s - 1) := Some (d\<lparr>Health := Healthy\<rparr>)],
                  nextDevice := nextDevice s - 1\<rparr>, [True])"
proof -
  have n1: "nextDevice s \<le> TotalDevicesCount" using assms(1) by (simp add: registry_inv_def)
  have b: "0 \<le> nextDevice s - 1" "nextDevice s - 1 < TotalDevicesCount" using assms(2) n1 by auto
  obtain d where d: "devices s ! nat (nextDevice s - 1) = Some d" "Health d = Unhealthy"
     "setHealth (nextDevice s - 1) Healthy s =
        Inr (s\<lparr>devices := (devices s)[nat (nextDevice s - 1) := Some (d\<lparr>Health := Healthy\<rparr>)]\<rparr>)"
    using setHealth_inv [OF assms(1) b, of Healthy] by auto
  have "watchDevice_event ev s =
           Inr (s\<lparr>devices := (devices s)[nat (nextDevice s - 1) := Some (d\<lparr>Health := Healthy\<rparr>)],
                  nextDevice := nextDevice s - 1\<rparr>, [True])"
    using assms(2,3) d(3) by (simp add: watchDevice_event_def isRemove_def)
  with d show ?thesis by blast
qed

lemma registry_inv_create:
  assumes "registry_inv s" "nextDevice s < TotalDevicesCount"
  shows "registry_inv (s\<lparr>devices := (devices s)[nat (nextDevice s) := Some (d\<lparr>Health := Unhealthy\<rparr>)],
                  nextDevice := nextDevice s + 1\<rparr>)"
  using assms by (simp add: registry_inv_def map_Health_update marks_update_up)

lemma registry_inv_remove:
  assumes "registry_inv s" "0 < nextDevice s"
  shows "registry_inv (s\<lparr>devices := (devices s)[nat (nextDevice s - 1) := Some (d\<lparr>Health := Healthy\<rparr>)],
                  nextDevice := nextDevice s - 1\<rparr>)"
  using assms by (simp add: registry_inv_def map_Health_update marks_update_down)

text \<open>From a state that satisfies the invariant, no event panics and every event keeps it.\<close>

lemma watchDevice_event_inv:
  assumes "registry_inv s"
  shows "\<exists>s' sent. watchDevice_event ev s = Inr (s', sent) \<and> registry_inv s'"
proof (cases "isCreate ev")
  case True
  show ?thesis
  proof (cases "nextDevice s < TotalDevicesCount")
    case True
    with watchDevice_event_create [OF assms True \<open>isCreate ev\<close>] registry_inv_create [OF assms True]
    show ?thesis by auto
  next
    case False
    with watchDevice_event_create_full [OF \<open>isCreate ev\<close>, of s] assms show ?thesis by auto
  qed
next
  case False
  show ?thesis
  proof (cases "isRemove ev")
    case nr: False
    with watchDevice_event_other [OF False nr, of s] assms show ?thesis by auto
  next
    case True
    show ?thesis
    proof (cases "0 < nextDevice s")
      case pos: True
      with watchDevice_event_remove [OF assms pos True] registry_inv_remove [OF assms pos]
      show ?thesis by auto
    next
      case False
      with watchDevice_event_remove_empty [OF True, of s] assms show ?thesis by auto
    qed
  qed
qed

lemma watchDevice_loop_inv:
  "registry_inv s \<Longrightarrow>
   \<exists>st s' out'. watchDevice_loop cs s out = Inr (st, s', out') \<and> registry_inv s'"
proof (induction cs s out rule: watchDevice_loop.induct)
  case (3 event cs s out)
  obtain s' sent where e: "watchDevice_event event s = Inr (s', sent)" "registry_inv s'"
    using watchDevice_event_inv [OF "3.prems"] by blast
  from "3.IH" [OF e(1) refl e(2)] e(1) show ?case by simp
qed simp_all

text \<open>A create event and then a remove event give back the state they started from.\<close>

lemma create_remove_id:
  assumes "registry_inv s" "nextDevice s < TotalDevicesCount" "isCreate c" "isRemove r"
  shows "\<exists>s1. watchDevice_event c s = Inr (s1, [True]) \<and> registry_inv s1 \<and>
              nextDevice s1 = nextDevice s + 1 \<and> watchDevice_event r s1 = Inr (s, [True])"
proof -
  obtain d where d: "devices s ! nat (nextDevice s) = Some d" "Health d = Healthy"
    and c: "watchDevice_event c s =
           Inr (s\<lparr>devices := (devices s)[nat (nextDevice s) := Some (d\<lparr>Health := Unhealthy\<rparr>)],
                  nextDevice := nextDevice s + 1\<rparr>, [True])"
    using watchDevice_event_create [OF assms(1,2,3)] by blast
  define s1 where "s1 = s\<lparr>devices := (devices s)[nat (nextDevice s) := Some (d\<lparr>Health := Unhealthy\<rparr>)],
                  nextDevice := nextDevice s + 1\<rparr>"
  have inv1: "registry_inv s1"
    unfolding s1_def by (rule registry_inv_create [OF assms(1,2)])
  have n0: "0 \<le> nextDevice s" using assms(1) by (simp add: registry_inv_def)
  have len: "nat (nextDevice s) < length (devices s)"
    using registry_inv_length [OF assms(1)] assms(2) n0 by simp
  have pos: "0 < nextDevice s1" using n0 by (simp add: s1_def)
  obtain d1 where d1: "devices s1 ! nat (nextDevice s1 - 1) = Some d1"
    and r: "watchDevice_event r s1 =
           Inr (s1\<lparr>devices := (devices s1)[nat (nextDevice s1 - 1) := Some (d1\<lparr>Health := Healthy\<rparr>)],
                  nextDevice := nextDevice s1 - 1\<rparr>, [True])"
    using watchDevice_event_remove [OF inv1 pos assms(4)] by blast
  have "d1 = d\<lparr>Health := Unhealthy\<rparr>"
    using d1 len by (simp add: s1_def)
  then have undo: "d1\<lparr>Health := Healthy\<rparr> = d"
    using d(2) by simp
  have "s1\<lparr>devices := (devices s1)[nat (nextDevice s1 - 1) := Some (d1\<lparr>Health := Healthy\<rparr>)],
                  nextDevice := nextDevice s1 - 1\<rparr> = s"
  proof -
    have "(devices s)[nat (nextDevice s) := Some d] = devices s"
      using d(1) by (metis list_update_id)
    then show ?thesis
      unfolding undo by (simp add: s1_def)
  qed
  with r c inv1 show ?thesis by (auto simp: s1_def)
qed

section \<open>Sequences of events\<close>

lemma watchDevice_loop_creates_full:
  "TotalDevicesCount \<le> nextDevice s \<Longrightarrow> \<forall>e\<in>set cs. isCreate e \<Longrightarrow>
   watchDevice_loop (map (RecvEvent \<circ> Some) cs @ rest) s out =
     watchDevice_loop rest s (out @ replicate (length cs) True)"
proof (induction cs arbitrary: out)
  case Nil
  then show ?case by simp
next
  case (Cons c cs)
  have "watchDevice_event c s = Inr (s, [True])"
    using Cons.prems by (simp add: watchDevice_event_create_full)
  then show ?case
    using Cons by (simp add: replicate_append_same)
qed

lemma watchDevice_loop_creates_removes:
  "registry_inv s \<Longrightarrow> nextDevice s + int (length cs) \<le> TotalDevicesCount \<Longrightarrow>
   length rs = length cs \<Longrightarrow> \<forall>e\<in>set cs. isCreate e \<Longrightarrow> \<forall>e\<in>set rs. isRemove e \<Longrightarrow>
   watchDevice_loop (map (RecvEvent \<circ> Some) cs @ map (RecvEvent \<circ> Some) rs @ rest) s out =
     watchDevice_loop rest s (out @ replicate (2 * length cs) True)"
proof (induction cs arbitrary: s rs rest out)
  case Nil
  then show ?case by simp
next
  case (Cons c cs)
  from Cons.prems(3) obtain rs' r where rs: "rs = rs' @ [r]"
    by (cases rs rule: rev_cases) auto
  have len: "length rs' = length cs" using Cons.prems(3) rs by simp
  have r: "isRemove r" and rs': "\<forall>e\<in>set rs'. isRemove e"
    using Cons.prems(5) rs by auto
  have c: "isCreate c" and cs: "\<forall>e\<in>set cs. isCreate e"
    using Cons.prems(4) by auto
  have lt: "nextDevice s < TotalDevicesCount" using Cons.prems(2) by simp
  obtain s1 where s1: "watchDevice_event c s = Inr (s1, [True])" "registry_inv s1"
      "nextDevice s1 = nextDevice s + 1" "watchDevice_event r s1 = Inr (s, [True])"
    using create_remove_id [OF Cons.prems(1) lt c r] by blast
  have room: "nextDevice s1 + int (length cs) \<le> TotalDevicesCount"
    using Cons.prems(2) s1(3) by simp
  have "watchDevice_loop (map (RecvEvent \<circ> Some) (c # cs) @ map (RecvEvent \<circ> Some) rs @ rest) s out =
        watchDevice_loop (map (RecvEvent \<circ> Some) cs @ map (RecvEvent \<circ> Some) rs' @ (RecvEvent (Some r) # rest))
          s1 (out @ [True])"
    using s1(1) by (simp add: rs)
  also have "\<dots> = watchDevice_loop (RecvEvent (Some r) # rest) s1 ((out @ [True]) @ replicate (2 * length cs) True)"
    by (rule Cons.IH [OF s1(2) room len cs rs'])
  also have "\<dots> = watchDevice_loop rest s (out @ replicate (2 * length (c # cs)) True)"
    using s1(4) by (simp add: replicate_append_same)
  finally show ?case .
qed

section \<open>The claims about the registry\<close>

text \<open>
  C1 (the code breaks the invariant). The claim: in every reachable state the cursor
  \<open>nextDevice\<close> lies in \<open>[0, TotalDevicesCount]\<close> and the device at \<open>i\<close> is Unhealthy
  exactly when \<open>i\<close> is below the cursor. \<open>listDevice\<close> stores the length of the directory
  listing without the bound that the create branch of the watcher applies: with 41
  entries in the device directory the state after initialisation has the cursor at 41,
  above \<open>TotalDevicesCount\<close>, it does not satisfy the invariant, and the next remove event
  indexes the slice at 40 and panics.
\<close>

theorem listDevice_breaks_registry_inv:
  "listDevice (Inr (replicate 41 ''nic'')) NewMultusNicServer = Inr (registry 41) \<and>
   nextDevice (registry 41) = 41 \<and>
   \<not> nextDevice (registry 41) \<le> TotalDevicesCount \<and>
   \<not> registry_inv (registry 41) \<and>
   watchDevice_event \<lparr>Name = ''nic'', Op = Remove\<rparr> (registry 41) =
     Inl (PanicIndexOutOfRange 40 40)"
proof -
  have a: "listDevice (Inr (replicate 41 ''nic'')) NewMultusNicServer = Inr (registry 41)"
    using listDevice_New [of "replicate 41 ''nic''"] by simp
  have b: "nextDevice (registry 41) = 41"
    by (simp add: registry_def)
  have c: "\<not> nextDevice (registry 41) \<le> TotalDevicesCount"
    by (simp add: registry_def TotalDevicesCount_def)
  have d: "\<not> registry_inv (registry 41)"
    using c by (simp add: registry_inv_def)
  have e: "watchDevice_event \<lparr>Name = ''nic'', Op = Remove\<rparr> (registry 41) =
     Inl (PanicIndexOutOfRange 40 40)"
    by (simp add: watchDevice_event_def setHealth_def registry_def TotalDevicesCount_def
        Create_def Remove_def)
  from a b c d e show ?thesis by blast
qed

lemma isCreate_Create: "isCreate \<lparr>Name = n, Op = Create\<rparr>"
  by (simp add: isCreate_def)

lemma isRemove_Remove: "isRemove \<lparr>Name = n, Op = Remove\<rparr>"
  by (simp add: isRemove_def Create_def Remove_def)

lemma registry_40_remove:
  "watchDevice_event \<lparr>Name = n, Op = Remove\<rparr> (registry 40) =
     Inr ((registry 40)\<lparr>devices := (devices (registry 40))[39 := Some \<lparr>ID = Itoa 39, Health = Healthy\<rparr>],
                        nextDevice := 39\<rparr>, [True])"
proof -
  have inv: "registry_inv (registry 40)"
    by (rule registry_inv_registry) (simp_all add: TotalDevicesCount_def)
  have pos: "0 < nextDevice (registry 40)" by (simp add: registry_def)
  have d: "devices (registry 40) ! 39 = Some \<lparr>ID = Itoa 39, Health = Unhealthy\<rparr>"
    by (simp add: registry_def TotalDevicesCount_def mkDevice_def)
  obtain d' where d': "devices (registry 40) ! nat (nextDevice (registry 40) - 1) = Some d'"
    and ev: "watchDevice_event \<lparr>Name = n, Op = Remove\<rparr> (registry 40) =
           Inr ((registry 40)\<lparr>devices := (devices (registry 40))[nat (nextDevice (registry 40) - 1) := Some (d'\<lparr>Health := Healthy\<rparr>)],
                  nextDevice := nextDevice (registry 40) - 1\<rparr>, [True])"
    using watchDevice_event_remove [OF inv pos isRemove_Remove] by blast
  have n: "nextDevice (registry 40) = 40" by (simp add: registry_def)
  have "d' = \<lparr>ID = Itoa 39, Health = Unhealthy\<rparr>"
    using d d' by (simp add: n)
  then show ?thesis using ev by (simp add: n)
qed

text \<open>
  C2 (corrected), the claim as stated fails. With 40 entries in the device directory the
  server starts with the cursor at \<open>TotalDevicesCount\<close>; a create event then leaves the
  state as it is, but a value is sent on \<open>s.notify\<close>: the send is after the guarded
  update, not inside it. The same holds for a remove event with the cursor at 0.
\<close>

theorem saturated_create_notifies:
  "listDevice (Inr (replicate 40 ''nic'')) NewMultusNicServer = Inr (registry 40) \<and>
   nextDevice (registry 40) = TotalDevicesCount \<and>
   watchDevice_event \<lparr>Name = ''nic'', Op = Create\<rparr> (registry 40) = Inr (registry 40, [True]) \<and>
   watchDevice_event \<lparr>Name = ''nic'', Op = Create\<rparr> (registry 40) \<noteq> Inr (registry 40, []) \<and>
   listDevice (Inr []) NewMultusNicServer = Inr (registry 0) \<and>
   nextDevice (registry 0) = 0 \<and>
   watchDevice_event \<lparr>Name = ''nic'', Op = Remove\<rparr> (registry 0) = Inr (registry 0, [True]) \<and>
   watchDevice_event \<lparr>Name = ''nic'', Op = Remove\<rparr> (registry 0) \<noteq> Inr (registry 0, [])"
proof -
  have a: "listDevice (Inr (replicate 40 ''nic'')) NewMultusNicServer = Inr (registry 40)"
    using listDevice_New [of "replicate 40 ''nic''"] by simp
  have b: "nextDevice (registry 40) = TotalDevicesCount"
    by (simp add: registry_def TotalDevicesCount_def)
  have c: "watchDevice_event \<lparr>Name = ''nic'', Op = Create\<rparr> (registry 40) = Inr (registry 40, [True])"
    using b by (simp add: watchDevice_event_create_full isCreate_Create)
  have d: "listDevice (Inr []) NewMultusNicServer = Inr (registry 0)"
    using listDevice_New [of "[]"] by simp
  have e: "nextDevice (registry 0) = 0"
    by (simp add: registry_def)
  have f: "watchDevice_event \<lparr>Name = ''nic'', Op = Remove\<rparr> (registry 0) = Inr (registry 0, [True])"
    using e by (simp add: watchDevice_event_remove_empty isRemove_Remove)
  show ?thesis
    unfolding c f using a b d e by simp
qed

text \<open>
  C2 (corrected), the amended claim. For every state with the cursor at
  \<open>TotalDevicesCount\<close>, a create event leaves the devices and the cursor unchanged and
  sends exactly one value on \<open>s.notify\<close>; for every state with the cursor at 0, a remove
  event leaves the devices and the cursor unchanged and sends exactly one value on
  \<open>s.notify\<close>.
\<close>

theorem watchDevice_event_at_bounds:
  "(isCreate ev \<and> nextDevice s = TotalDevicesCount \<longrightarrow>
      watchDevice_event ev s = Inr (s, [True])) \<and>
   (isRemove ev \<and> nextDevice s = 0 \<longrightarrow>
      watchDevice_event ev s = Inr (s, [True]))"
  by (simp add: watchDevice_event_def isCreate_def isRemove_def)

theorem watchDevice_event_at_bounds_witness:
  "isCreate \<lparr>Name = ''nic'', Op = Create\<rparr> \<and>
   nextDevice (registry 40) = TotalDevicesCount \<and>
   watchDevice_event \<lparr>Name = ''nic'', Op = Create\<rparr> (registry 40) = Inr (registry 40, [True]) \<and>
   isRemove \<lparr>Name = ''nic'', Op = Remove\<rparr> \<and>
   nextDevice (registry 0) = 0 \<and>
   watchDevice_event \<lparr>Name = ''nic'', Op = Remove\<rparr> (registry 0) = Inr (registry 0, [True])"
proof -
  have c: "isCreate \<lparr>Name = ''nic'', Op = Create\<rparr>"
    by (simp add: isCreate_def)
  have r: "isRemove \<lparr>Name = ''nic'', Op = Remove\<rparr>"
    by (simp add: isRemove_def Create_def Remove_def)
  have n40: "nextDevice (registry 40) = TotalDevicesCount"
    by (simp add: registry_def TotalDevicesCount_def)
  have n0: "nextDevice (registry 0) = 0"
    by (simp add: registry_def)
  from watchDevice_event_at_bounds [of "\<lparr>Name = ''nic'', Op = Create\<rparr>" "registry 40"]
       watchDevice_event_at_bounds [of "\<lparr>Name = ''nic'', Op = Remove\<rparr>" "registry 0"]
       c r n40 n0
  show ?thesis by blast
qed

text \<open>
  C3 (the code misses the bound). The claim: \<open>listDevice\<close> sets the cursor to
  \<open>min(count, N)\<close>. With 41 entries in the device directory \<open>listDevice\<close> leaves the
  cursor at 41, where the claim has \<open>min 41 40 = 40\<close>.
\<close>

theorem listDevice_cursor_not_clamped:
  "map_sum id nextDevice (listDevice (Inr (replicate 41 ''nic'')) NewMultusNicServer) = Inr 41 \<and>
   min (int (length (replicate 41 ''nic''))) TotalDevicesCount = 40"
proof -
  have "listDevice (Inr (replicate 41 ''nic'')) NewMultusNicServer = Inr (registry 41)"
    using listDevice_New [of "replicate 41 ''nic''"] by simp
  then show ?thesis
    by (simp add: registry_def TotalDevicesCount_def)
qed

text \<open>
  C4 (corrected), the claim as stated fails. From the state with 40 entries at startup
  (all devices Unhealthy, cursor at 40), one create event and then one remove event end
  with the cursor at 39 and device 39 Healthy: the create is dropped by the guard, the
  remove is not.
\<close>

theorem create_remove_at_capacity:
  "listDevice (Inr (replicate 40 ''nic'')) NewMultusNicServer = Inr (registry 40) \<and>
   nextDevice (registry 40) = 40 \<and>
   map_sum id (nextDevice \<circ> fst \<circ> snd)
     (watchDevice_loop
        [RecvEvent (Some \<lparr>Name = ''nic'', Op = Create\<rparr>),
         RecvEvent (Some \<lparr>Name = ''nic'', Op = Remove\<rparr>)] (registry 40) []) = Inr 39 \<and>
   watchDevice_loop
        [RecvEvent (Some \<lparr>Name = ''nic'', Op = Create\<rparr>),
         RecvEvent (Some \<lparr>Name = ''nic'', Op = Remove\<rparr>)] (registry 40) []
     \<noteq> Inr (LoopRunning, registry 40, [True, True])"
proof -
  have a: "listDevice (Inr (replicate 40 ''nic'')) NewMultusNicServer = Inr (registry 40)"
    using listDevice_New [of "replicate 40 ''nic''"] by simp
  have b: "nextDevice (registry 40) = 40"
    by (simp add: registry_def)
  have c: "watchDevice_event \<lparr>Name = ''nic'', Op = Create\<rparr> (registry 40) = Inr (registry 40, [True])"
    using b by (simp add: watchDevice_event_create_full isCreate_Create TotalDevicesCount_def)
  have l: "watchDevice_loop
        [RecvEvent (Some \<lparr>Name = ''nic'', Op = Create\<rparr>),
         RecvEvent (Some \<lparr>Name = ''nic'', Op = Remove\<rparr>)] (registry 40) [] =
       Inr (LoopRunning,
         (registry 40)\<lparr>devices := (devices (registry 40))[39 := Some \<lparr>ID = Itoa 39, Health = Healthy\<rparr>],
                        nextDevice := 39\<rparr>, [True, True])"
    by (simp add: c registry_40_remove)
  have ne: "(registry 40)\<lparr>devices := (devices (registry 40))[39 := Some \<lparr>ID = Itoa 39, Health = Healthy\<rparr>],
                        nextDevice := 39\<rparr> \<noteq> registry 40"
  proof
    assume "(registry 40)\<lparr>devices := (devices (registry 40))[39 := Some \<lparr>ID = Itoa 39, Health = Healthy\<rparr>],
                        nextDevice := 39\<rparr> = registry 40"
    then have "nextDevice ((registry 40)\<lparr>devices := (devices (registry 40))[39 := Some \<lparr>ID = Itoa 39, Health = Healthy\<rparr>],
                        nextDevice := 39\<rparr>) = nextDevice (registry 40)"
      by simp
    then show False by (simp add: b)
  qed
  show ?thesis
    unfolding l using a b ne by simp
qed

text \<open>
  From a state that satisfies the invariant and has room for \<open>K\<close> more devices,
  \<open>K\<close> create events and then \<open>K\<close> remove events lead back to that state.
\<close>

lemma roundtrip_from_inv:
  assumes "registry_inv s"
      and "nextDevice s + int K \<le> TotalDevicesCount"
      and "length cs = K" and "length rs = K"
      and "\<forall>e\<in>set cs. isCreate e" and "\<forall>e\<in>set rs. isRemove e"
  shows "watchDevice_loop (map (RecvEvent \<circ> Some) (cs @ rs)) s [] =
           Inr (LoopRunning, s, replicate (2 * K) True)"
proof -
  have "watchDevice_loop (map (RecvEvent \<circ> Some) cs @ map (RecvEvent \<circ> Some) rs @ []) s [] =
        watchDevice_loop [] s ([] @ replicate (2 * length cs) True)"
    using assms by (intro watchDevice_loop_creates_removes) simp_all
  then show ?thesis using assms(3) by simp
qed

text \<open>
  A server started on a directory with more than \<open>TotalDevicesCount\<close> entries stays in
  its first state for as long as the watcher's loop does not panic.
\<close>

lemma watchDevice_event_above:
  assumes "TotalDevicesCount < nextDevice s"
      and "int (length (devices s)) = TotalDevicesCount"
      and "watchDevice_event ev s = Inr (s', sent)"
  shows "s' = s"
proof (cases "isCreate ev")
  case True
  with assms show ?thesis by (simp add: watchDevice_event_create_full)
next
  case False
  show ?thesis
  proof (cases "isRemove ev")
    case True
    with assms watchDevice_event_remove_above [OF assms(1) True assms(2)] show ?thesis by simp
  next
    case nr: False
    with assms False show ?thesis by (simp add: watchDevice_event_other)
  qed
qed

lemma watchDevice_loop_above:
  "TotalDevicesCount < nextDevice s \<Longrightarrow> int (length (devices s)) = TotalDevicesCount \<Longrightarrow>
   watchDevice_loop tr s out = Inr (st, s', out') \<Longrightarrow> s' = s"
proof (induction tr s out rule: watchDevice_loop.induct)
  case (3 event cs s out)
  from "3.prems"(3) obtain s1 sent where e: "watchDevice_event event s = Inr (s1, sent)"
    by (auto split: sum.splits)
  have s1: "s1 = s"
    by (rule watchDevice_event_above [OF "3.prems"(1,2) e])
  from "3.IH" [OF e refl] "3.prems" e s1 show ?case by simp
qed simp_all

text \<open>
  Every state the server reaches within the bound satisfies the invariant: after
  \<open>listDevice\<close> on a new server and the watcher's loop over any sequence of \<open>select\<close>
  cases, a cursor that is at most \<open>TotalDevicesCount\<close> comes with the invariant.
\<close>

lemma reached_registry_inv:
  assumes "listDevice (Inr dir) NewMultusNicServer = Inr s0"
      and "watchDevice_loop tr s0 [] = Inr (st, s, out)"
      and "nextDevice s \<le> TotalDevicesCount"
  shows "registry_inv s"
proof -
  have s0: "s0 = registry (int (length dir))"
    using assms(1) by (simp add: listDevice_New)
  show ?thesis
  proof (cases "int (length dir) \<le> TotalDevicesCount")
    case True
    then have "registry_inv s0"
      using assms(1) by (rule registry_inv_listDevice)
    from watchDevice_loop_inv [OF this, of tr "[]"] assms(2) show ?thesis by auto
  next
    case False
    then have above: "TotalDevicesCount < nextDevice s0"
      by (simp add: s0 registry_def)
    have len: "int (length (devices s0)) = TotalDevicesCount"
      by (simp add: s0 registry_def TotalDevicesCount_def)
    have "s = s0"
      by (rule watchDevice_loop_above [OF above len assms(2)])
    with above assms(3) show ?thesis by simp
  qed
qed

text \<open>
  C4 (corrected), the amended claim. For every state the server reaches (after
  initialisation and any sequence of events processed by the watcher) and every \<open>K\<close>
  with \<open>nextDevice + K \<le> TotalDevicesCount\<close>, \<open>K\<close> create events followed by \<open>K\<close>
  remove events through the watcher's loop return the server, all devices with their
  health and the cursor, to exactly the state before the sequence.
\<close>

theorem create_remove_roundtrip:
  assumes "listDevice (Inr dir) NewMultusNicServer = Inr s0"
      and "watchDevice_loop tr s0 [] = Inr (st, s, out)"
      and "nextDevice s + int K \<le> TotalDevicesCount"
      and "length cs = K" and "length rs = K"
      and "\<forall>e\<in>set cs. isCreate e" and "\<forall>e\<in>set rs. isRemove e"
  shows "watchDevice_loop (map (RecvEvent \<circ> Some) (cs @ rs)) s [] =
           Inr (LoopRunning, s, replicate (2 * K) True)"
proof -
  have "nextDevice s \<le> TotalDevicesCount"
    using assms(3) by simp
  then have "registry_inv s"
    by (rule reached_registry_inv [OF assms(1,2)])
  then show ?thesis
    by (rule roundtrip_from_inv [OF _ assms(3-7)])
qed

text \<open>
  Three entries at startup and one create event lead to the cursor at 4; two create
  events and two remove events from there lead back to the same state.
\<close>

theorem create_remove_roundtrip_witness:
  "listDevice (Inr [''a'', ''b'', ''c'']) NewMultusNicServer = Inr (registry 3) \<and>
   watchDevice_loop [RecvEvent (Some \<lparr>Name = ''d'', Op = Create\<rparr>)] (registry 3) [] =
     Inr (LoopRunning, (registry 3)\<lparr>devices := (devices (registry 3))[3 := Some \<lparr>ID = ''3'', Health = Unhealthy\<rparr>],
                                   nextDevice := 4\<rparr>, [True]) \<and>
   isCreate \<lparr>Name = ''e'', Op = Create\<rparr> \<and> isCreate \<lparr>Name = ''f'', Op = Create\<rparr> \<and>
   isRemove \<lparr>Name = ''f'', Op = Remove\<rparr> \<and> isRemove \<lparr>Name = ''e'', Op = Remove\<rparr> \<and>
   watchDevice_loop
     [RecvEvent (Some \<lparr>Name = ''e'', Op = Create\<rparr>), RecvEvent (Some \<lparr>Name = ''f'', Op = Create\<rparr>),
      RecvEvent (Some \<lparr>Name = ''f'', Op = Remove\<rparr>), RecvEvent (Some \<lparr>Name = ''e'', Op = Remove\<rparr>)]
     ((registry 3)\<lparr>devices := (devices (registry 3))[3 := Some \<lparr>ID = ''3'', Health = Unhealthy\<rparr>],
                   nextDevice := 4\<rparr>) [] =
     Inr (LoopRunning, (registry 3)\<lparr>devices := (devices (registry 3))[3 := Some \<lparr>ID = ''3'', Health = Unhealthy\<rparr>],
                                   nextDevice := 4\<rparr>, [True, True, True, True])"
proof -
  define s where "s = (registry 3)\<lparr>devices := (devices (registry 3))[3 := Some \<lparr>ID = ''3'', Health = Unhealthy\<rparr>],
                                   nextDevice := 4\<rparr>"
  have init: "listDevice (Inr [''a'', ''b'', ''c'']) NewMultusNicServer = Inr (registry 3)"
    using listDevice_New [of "[''a'', ''b'', ''c'']"] by simp
  have inv: "registry_inv (registry 3)"
    by (rule registry_inv_registry) (simp_all add: TotalDevicesCount_def)
  have lt: "nextDevice (registry 3) < TotalDevicesCount"
    by (simp add: registry_def TotalDevicesCount_def)
  have d3: "devices (registry 3) ! 3 = Some \<lparr>ID = ''3'', Health = Healthy\<rparr>"
    by (simp add: registry_def TotalDevicesCount_def mkDevice_def Itoa_def utoa.simps digit_def)
  obtain d where d: "devices (registry 3) ! nat (nextDevice (registry 3)) = Some d"
    and ev: "watchDevice_event \<lparr>Name = ''d'', Op = Create\<rparr> (registry 3) =
      Inr ((registry 3)\<lparr>devices := (devices (registry 3))[nat (nextDevice (registry 3)) := Some (d\<lparr>Health := Unhealthy\<rparr>)],
                  nextDevice := nextDevice (registry 3) + 1\<rparr>, [True])"
    using watchDevice_event_create [OF inv lt isCreate_Create] by blast
  have n3: "nextDevice (registry 3) = 3" by (simp add: registry_def)
  have "d = \<lparr>ID = ''3'', Health = Healthy\<rparr>"
    using d d3 by (simp add: n3)
  then have step: "watchDevice_event \<lparr>Name = ''d'', Op = Create\<rparr> (registry 3) = Inr (s, [True])"
    using ev by (simp add: n3 s_def)
  have reach: "watchDevice_loop [RecvEvent (Some \<lparr>Name = ''d'', Op = Create\<rparr>)] (registry 3) [] =
     Inr (LoopRunning, s, [True])"
    by (simp add: step)
  have room: "nextDevice s + int 2 \<le> TotalDevicesCount"
    by (simp add: s_def TotalDevicesCount_def)
  have cs: "\<forall>e\<in>set [\<lparr>Name = ''e'', Op = Create\<rparr>, \<lparr>Name = ''f'', Op = Create\<rparr>]. isCreate e"
    by (simp add: isCreate_def)
  have rs: "\<forall>e\<in>set [\<lparr>Name = ''f'', Op = Remove\<rparr>, \<lparr>Name = ''e'', Op = Remove\<rparr>]. isRemove e"
    by (simp add: isRemove_def Create_def Remove_def)
  have "watchDevice_loop (map (RecvEvent \<circ> Some)
          ([\<lparr>Name = ''e'', Op = Create\<rparr>, \<lparr>Name = ''f'', Op = Create\<rparr>] @
           [\<lparr>Name = ''f'', Op = Remove\<rparr>, \<lparr>Name = ''e'', Op = Remove\<rparr>])) s [] =
        Inr (LoopRunning, s, replicate (2 * 2) True)"
    by (rule create_remove_roundtrip [OF init reach room _ _ cs rs]) simp_all
  then have loop: "watchDevice_loop
     [RecvEvent (Some \<lparr>Name = ''e'', Op = Create\<rparr>), RecvEvent (Some \<lparr>Name = ''f'', Op = Create\<rparr>),
      RecvEvent (Some \<lparr>Name = ''f'', Op = Remove\<rparr>), RecvEvent (Some \<lparr>Name = ''e'', Op = Remove\<rparr>)]
     s [] = Inr (LoopRunning, s, [True, True, True, True])"
    by (simp add: numeral_eq_Suc)
  show ?thesis
    using init reach loop cs rs unfolding s_def by simp
qed

text \<open>
  What \<open>listDevice\<close> does, for the record of C3: it fails exactly when the directory
  cannot be read, and \<open>Run\<close> then ends the process; otherwise it builds
  \<open>TotalDevicesCount\<close> devices with the decimal indices as IDs, the first
  \<open>min count N\<close> of them Unhealthy and the rest Healthy.
\<close>

lemma listDevice_fails_iff:
  "(\<exists>e. listDevice rd NewMultusNicServer = Inl e) \<longleftrightarrow> (\<exists>err. rd = Inl err)"
  by (cases rd) (simp_all add: listDevice_error listDevice_New)

lemma Run_listDevice_error:
  "readDir env = Inl err \<Longrightarrow> Run env s = Inl FatalExit"
  by (simp add: Run_def listDevice_error)

lemma registry_length: "length (devices (registry n)) = 40"
  by (simp add: registry_def TotalDevicesCount_def)

lemma registry_nth:
  "i < 40 \<Longrightarrow> devices (registry n) ! i =
     Some \<lparr>ID = Itoa (int i), Health = (if int i < min n TotalDevicesCount then Unhealthy else Healthy)\<rparr>"
  by (simp add: registry_def TotalDevicesCount_def mkDevice_def)

lemma registry_IDs:
  "map (map_option ID) (devices (registry n)) = map (\<lambda>i. Some (Itoa (int i))) [0..<40]"
  by (simp add: registry_def TotalDevicesCount_def mkDevice_def)

text \<open>The forty IDs, in order, ten at a time, each ten as one comma-separated string.\<close>

lemma Itoa_upto_40:
  "Join (map (\<lambda>i. Itoa (int i)) [0..<10]) '','' = ''0,1,2,3,4,5,6,7,8,9'' \<and>
   Join (map (\<lambda>i. Itoa (int i)) [10..<20]) '','' = ''10,11,12,13,14,15,16,17,18,19'' \<and>
   Join (map (\<lambda>i. Itoa (int i)) [20..<30]) '','' = ''20,21,22,23,24,25,26,27,28,29'' \<and>
   Join (map (\<lambda>i. Itoa (int i)) [30..<40]) '','' = ''30,31,32,33,34,35,36,37,38,39''"
  by code_simp

text \<open>Scenario 1 of the specification: three entries at startup.\<close>

lemma listDevice_three:
  "listDevice (Inr [''a'', ''b'', ''c'']) NewMultusNicServer = Inr (registry 3) \<and>
   nextDevice (registry 3) = 3 \<and>
   map (map_option Health) (devices (registry 3)) =
     replicate 3 (Some Unhealthy) @ replicate 37 (Some Healthy)"
proof -
  have "listDevice (Inr [''a'', ''b'', ''c'']) NewMultusNicServer = Inr (registry 3)"
    using listDevice_New [of "[''a'', ''b'', ''c'']"] by simp
  moreover have "nextDevice (registry 3) = 3" by (simp add: registry_def)
  moreover have "map (map_option Health) (devices (registry 3)) =
     replicate 3 (Some Unhealthy) @ replicate 37 (Some Healthy)"
    by (simp add: registry_def TotalDevicesCount_def mkDevice_def list_eq_iff_nth_eq nth_append)
  ultimately show ?thesis by blast
qed

section \<open>Bounds of the watcher's slice accesses\<close>

text \<open>
  C10. The slice accesses of the watcher (index \<open>nextDevice\<close> on a create event, index
  \<open>nextDevice - 1\<close> on a remove event) stay within the slice for every event exactly
  when the cursor is within \<open>[0, TotalDevicesCount]\<close>. \<open>listDevice\<close> sets the cursor to
  the number of directory entries as it is: when the directory has more than
  \<open>TotalDevicesCount\<close> entries at startup, the create events that follow change nothing
  and the first remove event indexes the slice at \<open>count - 1 \<ge> TotalDevicesCount\<close>,
  which is the run-time panic.
\<close>

theorem watcher_access_bounds:
  "(int (length (devices s)) = TotalDevicesCount \<longrightarrow>
      ((0 \<le> nextDevice s \<and> nextDevice s \<le> TotalDevicesCount) \<longleftrightarrow>
       (\<forall>ev j n. watchDevice_event ev s \<noteq> Inl (PanicIndexOutOfRange j n)))) \<and>
   (TotalDevicesCount < int (length dir) \<and> (\<forall>e\<in>set cs. isCreate e) \<and> isRemove r \<longrightarrow>
      listDevice (Inr dir) NewMultusNicServer = Inr (registry (int (length dir))) \<and>
      nextDevice (registry (int (length dir))) = int (length dir) \<and>
      watchDevice_loop (map (RecvEvent \<circ> Some) cs @ RecvEvent (Some r) # rest)
          (registry (int (length dir))) out =
        Inl (PanicIndexOutOfRange (int (length dir) - 1) (nat TotalDevicesCount)) \<and>
      TotalDevicesCount \<le> int (length dir) - 1)"
proof (intro conjI impI)
  assume len: "int (length (devices s)) = TotalDevicesCount"
  show "(0 \<le> nextDevice s \<and> nextDevice s \<le> TotalDevicesCount) \<longleftrightarrow>
        (\<forall>ev j n. watchDevice_event ev s \<noteq> Inl (PanicIndexOutOfRange j n))"
  proof
    assume "0 \<le> nextDevice s \<and> nextDevice s \<le> TotalDevicesCount"
    then show "\<forall>ev j n. watchDevice_event ev s \<noteq> Inl (PanicIndexOutOfRange j n)"
      using watchDevice_event_in_bounds [OF len] by blast
  next
    assume safe: "\<forall>ev j n. watchDevice_event ev s \<noteq> Inl (PanicIndexOutOfRange j n)"
    show "0 \<le> nextDevice s \<and> nextDevice s \<le> TotalDevicesCount"
    proof (rule ccontr)
      assume "\<not> (0 \<le> nextDevice s \<and> nextDevice s \<le> TotalDevicesCount)"
      then consider "nextDevice s < 0" | "TotalDevicesCount < nextDevice s" by linarith
      then show False
      proof cases
        case 1
        from watchDevice_event_create_below [OF 1 isCreate_Create len, of "[]"] safe
        show False by blast
      next
        case 2
        from watchDevice_event_remove_above [OF 2 isRemove_Remove len, of "[]"] safe
        show False by blast
      qed
    qed
  qed
next
  assume h: "TotalDevicesCount < int (length dir) \<and> (\<forall>e\<in>set cs. isCreate e) \<and> isRemove r"
  show "listDevice (Inr dir) NewMultusNicServer = Inr (registry (int (length dir)))"
    by (rule listDevice_New)
  show n: "nextDevice (registry (int (length dir))) = int (length dir)"
    by (simp add: registry_def)
  have len: "int (length (devices (registry (int (length dir))))) = TotalDevicesCount"
    by (simp add: registry_length TotalDevicesCount_def)
  have full: "TotalDevicesCount \<le> nextDevice (registry (int (length dir)))"
    using h n by simp
  have "watchDevice_loop (map (RecvEvent \<circ> Some) cs @ RecvEvent (Some r) # rest)
          (registry (int (length dir))) out =
        watchDevice_loop (RecvEvent (Some r) # rest) (registry (int (length dir)))
          (out @ replicate (length cs) True)"
    using h by (intro watchDevice_loop_creates_full [OF full]) simp
  also have "\<dots> = Inl (PanicIndexOutOfRange (int (length dir) - 1) (nat TotalDevicesCount))"
    using watchDevice_event_remove_above [of "registry (int (length dir))" r] h len n
    by (simp add: registry_length TotalDevicesCount_def)
  finally show "watchDevice_loop (map (RecvEvent \<circ> Some) cs @ RecvEvent (Some r) # rest)
          (registry (int (length dir))) out =
        Inl (PanicIndexOutOfRange (int (length dir) - 1) (nat TotalDevicesCount))" .
  show "TotalDevicesCount \<le> int (length dir) - 1"
    using h by simp
qed

theorem watcher_access_bounds_witness:
  "int (length (devices (registry 41))) = TotalDevicesCount \<and>
   \<not> (0 \<le> nextDevice (registry 41) \<and> nextDevice (registry 41) \<le> TotalDevicesCount) \<and>
   \<not> (\<forall>ev j n. watchDevice_event ev (registry 41) \<noteq> Inl (PanicIndexOutOfRange j n)) \<and>
   TotalDevicesCount < int (length (replicate 41 ''nic'')) \<and>
   isCreate \<lparr>Name = ''nic41'', Op = Create\<rparr> \<and> isRemove \<lparr>Name = ''nic0'', Op = Remove\<rparr> \<and>
   listDevice (Inr (replicate 41 ''nic'')) NewMultusNicServer = Inr (registry 41) \<and>
   watchDevice_loop
     [RecvEvent (Some \<lparr>Name = ''nic41'', Op = Create\<rparr>),
      RecvEvent (Some \<lparr>Name = ''nic0'', Op = Remove\<rparr>)] (registry 41) [] =
     Inl (PanicIndexOutOfRange 40 40)"
proof -
  have len: "int (length (devices (registry 41))) = TotalDevicesCount"
    by (simp add: registry_length TotalDevicesCount_def)
  have out: "\<not> (0 \<le> nextDevice (registry 41) \<and> nextDevice (registry 41) \<le> TotalDevicesCount)"
    by (simp add: registry_def TotalDevicesCount_def)
  have big: "TotalDevicesCount < int (length (replicate 41 ''nic''))"
    by (simp add: TotalDevicesCount_def)
  have c: "isCreate \<lparr>Name = ''nic41'', Op = Create\<rparr>"
    by (simp add: isCreate_def)
  have cs: "\<forall>e\<in>set [\<lparr>Name = ''nic41'', Op = Create\<rparr>]. isCreate e"
    using c by simp
  have r: "isRemove \<lparr>Name = ''nic0'', Op = Remove\<rparr>"
    by (simp add: isRemove_def Create_def Remove_def)
  note w = watcher_access_bounds [of "registry 41" "replicate 41 ''nic''"
      "[\<lparr>Name = ''nic41'', Op = Create\<rparr>]" "\<lparr>Name = ''nic0'', Op = Remove\<rparr>" "[]" "[]"]
  have p1: "\<not> (\<forall>ev j n. watchDevice_event ev (registry 41) \<noteq> Inl (PanicIndexOutOfRange j n))"
    using w len out by blast
  have p2: "listDevice (Inr (replicate 41 ''nic'')) NewMultusNicServer = Inr (registry 41) \<and>
     watchDevice_loop
     [RecvEvent (Some \<lparr>Name = ''nic41'', Op = Create\<rparr>),
      RecvEvent (Some \<lparr>Name = ''nic0'', Op = Remove\<rparr>)] (registry 41) [] =
     Inl (PanicIndexOutOfRange 40 40)"
    using w big cs r by (simp add: TotalDevicesCount_def)
  from len out p1 big c r p2 show ?thesis by blast
qed

section \<open>The streaming session\<close>

lemma ListAndWatch_loop_never_fails:
  "snd (ListAndWatch_loop sel sends) \<noteq> LawReturned (Some err)"
  by (induction sel sends rule: ListAndWatch_loop.induct) simp_all

lemma ListAndWatch_first_send_fails:
  "ListAndWatch (Some err) sel s = ([(\<lparr>Devices = devices s\<rparr>, Some err)], LawReturned (Some err))"
  by (simp add: ListAndWatch_def)

text \<open>
  C5 (the code drops the error of the update sends). The claim: every failed send on the
  stream, the first one and every later one, is returned by the handler as an error and
  ends the session. Only the first \<open>srv.Send\<close> has its result tested. In the session
  below the first send succeeds, the send after the first notification fails with
  \<open>''transport is closing''\<close>, and the handler goes on: it sends again at the second
  notification and returns \<open>nil\<close> when the context is cancelled.
\<close>

theorem ListAndWatch_ignores_update_send_error:
  "ListAndWatch None
     [NotifyRecv (registry 4) (Some ''transport is closing''), NotifyRecv (registry 3) None, DoneRecv]
     (registry 3) =
   ([(\<lparr>Devices = devices (registry 3)\<rparr>, None),
     (\<lparr>Devices = devices (registry 4)\<rparr>, Some ''transport is closing''),
     (\<lparr>Devices = devices (registry 3)\<rparr>, None)],
    LawReturned None) \<and>
   ListAndWatch None [NotifyRecv (registry 4) (Some ''transport is closing'')] (registry 3) =
   ([(\<lparr>Devices = devices (registry 3)\<rparr>, None),
     (\<lparr>Devices = devices (registry 4)\<rparr>, Some ''transport is closing'')],
    LawWaiting)"
  by (simp add: ListAndWatch_def)

section \<open>The watcher's loop\<close>

lemma watchDevice_loop_ctx_done:
  "watchDevice_loop (replicate n CtxDone @ cs) s out = watchDevice_loop cs s out"
  by (induction n) simp_all

text \<open>
  Without a panic, the loop has returned exactly when a receive from the closed error
  channel is among the cases taken.
\<close>

lemma watchDevice_loop_returned_iff:
  "watchDevice_loop cs s out = Inr (st, s', out') \<Longrightarrow>
   st = LoopReturned \<longleftrightarrow> RecvError None \<in> set cs"
proof (induction cs s out rule: watchDevice_loop.induct)
  case (3 event cs s out)
  then show ?case by (auto split: sum.splits)
qed auto

lemma watchDevice_loop_error_logged:
  "watchDevice_loop (RecvError (Some err) # cs) s out = watchDevice_loop cs s out"
  by simp

text \<open>
  C6 (the \<open>break\<close> leaves the \<open>select\<close>, not the loop). The claim: cancellation of
  the shared context makes the watcher's loop exit. The \<open>case <-s.ctx.Done()\<close> branch is
  a bare \<open>break\<close> inside \<open>select\<close>, which ends the \<open>select\<close> statement only: however
  often the cancelled context is received, the loop is still running, and it still
  handles the event that comes after. The loop returns only on a receive from the closed
  error channel.
\<close>

theorem watchDevice_loop_survives_cancel:
  "watchDevice_loop (replicate n CtxDone) s out = Inr (LoopRunning, s, out) \<and>
   watchDevice_loop [CtxDone, RecvEvent (Some \<lparr>Name = ''nic'', Op = Create\<rparr>)] (registry 3) [] =
     watchDevice_loop [RecvEvent (Some \<lparr>Name = ''nic'', Op = Create\<rparr>)] (registry 3) [] \<and>
   map_sum id (\<lambda>r. (fst r, nextDevice (fst (snd r)), snd (snd r)))
     (watchDevice_loop [CtxDone, RecvEvent (Some \<lparr>Name = ''nic'', Op = Create\<rparr>)] (registry 3) []) =
     Inr (LoopRunning, 4, [True]) \<and>
   watchDevice_loop [CtxDone, RecvError None] s out = Inr (LoopReturned, s, out)"
proof -
  have a: "watchDevice_loop (replicate n CtxDone) s out = Inr (LoopRunning, s, out)"
    using watchDevice_loop_ctx_done [of n "[]" s out] by simp
  have inv: "registry_inv (registry 3)"
    by (rule registry_inv_registry) (simp_all add: TotalDevicesCount_def)
  have lt: "nextDevice (registry 3) < TotalDevicesCount"
    by (simp add: registry_def TotalDevicesCount_def)
  obtain d where "watchDevice_event \<lparr>Name = ''nic'', Op = Create\<rparr> (registry 3) =
      Inr ((registry 3)\<lparr>devices := (devices (registry 3))[nat (nextDevice (registry 3)) := Some (d\<lparr>Health := Unhealthy\<rparr>)],
                  nextDevice := nextDevice (registry 3) + 1\<rparr>, [True])"
    using watchDevice_event_create [OF inv lt isCreate_Create] by blast
  then have b: "map_sum id (\<lambda>r. (fst r, nextDevice (fst (snd r)), snd (snd r)))
     (watchDevice_loop [CtxDone, RecvEvent (Some \<lparr>Name = ''nic'', Op = Create\<rparr>)] (registry 3) []) =
     Inr (LoopRunning, 4, [True])"
    by (simp add: registry_def)
  show ?thesis using a b by simp
qed

section \<open>The serve loop\<close>

lemma Seconds_gt_hour: "Seconds d > 3600 \<longleftrightarrow> d > 3600000000000"
proof -
  have "Seconds d > 3600 \<longleftrightarrow> real_of_int d > 3600 * 1000000000"
    by (simp add: Seconds_def field_simps)
  also have "\<dots> \<longleftrightarrow> real_of_int d > real_of_int 3600000000000"
    by simp
  also have "\<dots> \<longleftrightarrow> d > 3600000000000"
    by (rule of_int_less_iff)
  finally show ?thesis .
qed

lemma serve_crash_fatal:
  "5 < restartCount st \<Longrightarrow> serve_crash since now st = Inl FatalExit"
  by (simp add: serve_crash_def)

lemma serve_crash_rapid:
  "restartCount st \<le> 5 \<Longrightarrow> Seconds (since - lastCrashTime st) \<le> 3600 \<Longrightarrow>
   serve_crash since now st = Inr \<lparr>lastCrashTime = now, restartCount = restartCount st + 1\<rparr>"
  by (simp add: serve_crash_def Let_def)

lemma serve_crash_stable:
  "restartCount st \<le> 5 \<Longrightarrow> Seconds (since - lastCrashTime st) > 3600 \<Longrightarrow>
   serve_crash since now st = Inr \<lparr>lastCrashTime = now, restartCount = 1\<rparr>"
  by (simp add: serve_crash_def Let_def)

lemma serve_loop_rapid_restarts:
  "rapid (lastCrashTime st) rs \<Longrightarrow> restartCount st + int (length rs) \<le> 6 \<Longrightarrow>
   fst (serve_loop rs st) = ServeServing \<and>
   restartCount (snd (serve_loop rs st)) = restartCount st + int (length rs)"
proof (induction rs arbitrary: st)
  case Nil
  then show ?case by simp
next
  case (Cons r rs)
  then obtain err since now where r: "r = ServeErr err since now"
    by (cases r) auto
  have le: "restartCount st \<le> 5" using Cons.prems(2) by simp
  have near: "Seconds (since - lastCrashTime st) \<le> 3600" and rest: "rapid now rs"
    using Cons.prems(1) r by auto
  define st' where "st' = \<lparr>lastCrashTime = now, restartCount = restartCount st + 1\<rparr>"
  have step: "serve_crash since now st = Inr st'"
    unfolding st'_def by (rule serve_crash_rapid [OF le near])
  have "rapid (lastCrashTime st') rs" "restartCount st' + int (length rs) \<le> 6"
    using rest Cons.prems(2) by (simp_all add: st'_def)
  from Cons.IH [OF this] show ?case
    by (simp add: r step st'_def)
qed

lemma serve_loop_rapid_fatal:
  "rapid (lastCrashTime st) rs \<Longrightarrow> restartCount st \<le> 6 \<Longrightarrow>
   6 < restartCount st + int (length rs) \<Longrightarrow>
   fst (serve_loop rs st) = ServeFatal \<and> restartCount (snd (serve_loop rs st)) = 6"
proof (induction rs arbitrary: st)
  case Nil
  then show ?case by simp
next
  case (Cons r rs)
  then obtain err since now where r: "r = ServeErr err since now"
    by (cases r) auto
  show ?case
  proof (cases "5 < restartCount st")
    case True
    then show ?thesis using Cons.prems(2) by (simp add: r serve_crash_fatal)
  next
    case False
    then have le: "restartCount st \<le> 5" by simp
    have near: "Seconds (since - lastCrashTime st) \<le> 3600" and rest: "rapid now rs"
      using Cons.prems(1) r by auto
    define st' where "st' = \<lparr>lastCrashTime = now, restartCount = restartCount st + 1\<rparr>"
    have step: "serve_crash since now st = Inr st'"
      unfolding st'_def by (rule serve_crash_rapid [OF le near])
    have "rapid (lastCrashTime st') rs" "restartCount st' \<le> 6"
         "6 < restartCount st' + int (length rs)"
      using rest le Cons.prems(3) by (simp_all add: st'_def)
    from Cons.IH [OF this] le show ?thesis
      by (simp add: r step st'_def)
  qed
qed

lemma Seconds_le_hour: "Seconds d \<le> 3600 \<longleftrightarrow> d \<le> 3600000000000"
  using Seconds_gt_hour [of d] by auto

text \<open>
  C7 (corrected), the claim as stated fails. The claim: on each serve failure the counter
  is reset to 1 when more than one hour has passed since the previous crash. Six failures
  one minute apart leave the counter at 6; the seventh failure comes two hours after the
  sixth, and the loop tests the counter before it looks at the clock: the process exits
  with the counter still at 6, it is not reset to 1.
\<close>

theorem stable_failure_above_five_is_fatal:
  "serve 0 [ServeErr ''closed'' 60000000000 60000000000, ServeErr ''closed'' 120000000000 120000000000,
            ServeErr ''closed'' 180000000000 180000000000, ServeErr ''closed'' 240000000000 240000000000,
            ServeErr ''closed'' 300000000000 300000000000, ServeErr ''closed'' 360000000000 360000000000] =
     (ServeServing, \<lparr>lastCrashTime = 360000000000, restartCount = 6\<rparr>) \<and>
   Seconds (7560000000000 - 360000000000) > 3600 \<and>
   serve_crash 7560000000000 7560000000000 \<lparr>lastCrashTime = 360000000000, restartCount = 6\<rparr> =
     Inl FatalExit \<and>
   serve_crash 7560000000000 7560000000000 \<lparr>lastCrashTime = 360000000000, restartCount = 6\<rparr> \<noteq>
     Inr \<lparr>lastCrashTime = 7560000000000, restartCount = 1\<rparr> \<and>
   serve 0 [ServeErr ''closed'' 60000000000 60000000000, ServeErr ''closed'' 120000000000 120000000000,
            ServeErr ''closed'' 180000000000 180000000000, ServeErr ''closed'' 240000000000 240000000000,
            ServeErr ''closed'' 300000000000 300000000000, ServeErr ''closed'' 360000000000 360000000000,
            ServeErr ''closed'' 7560000000000 7560000000000] =
     (ServeFatal, \<lparr>lastCrashTime = 360000000000, restartCount = 6\<rparr>)"
  by (simp add: serve_def serve_crash_def Let_def Seconds_gt_hour)

text \<open>
  C7 (corrected), the amended claim. On each serve failure that finds the restart counter
  at most 5, the counter is reset to 1 when more than one hour, 3600 * 10^9 ns, has passed
  since the clock reading kept from the previous crash, and is incremented otherwise; a
  serve failure that finds the counter above 5 ends the process and updates nothing. In
  particular, when the second failure comes within 10 minutes of the first and the third
  more than an hour after the second, the counter is 2 after the second failure and 1,
  not 3, after the third.
\<close>

theorem serve_crash_counter:
  "serve_crash since now st =
     (if restartCount st > 5 then Inl FatalExit
      else Inr \<lparr>lastCrashTime = now,
                restartCount = (if since - lastCrashTime st > 3600 * 1000000000 then 1
                                else restartCount st + 1)\<rparr>) \<and>
   (since2 - now1 \<le> 600 * 1000000000 \<and> since3 - now2 > 3600 * 1000000000 \<longrightarrow>
      serve start [ServeErr e1 since1 now1, ServeErr e2 since2 now2] =
        (ServeServing, \<lparr>lastCrashTime = now2, restartCount = 2\<rparr>) \<and>
      serve start [ServeErr e1 since1 now1, ServeErr e2 since2 now2, ServeErr e3 since3 now3] =
        (ServeServing, \<lparr>lastCrashTime = now3, restartCount = 1\<rparr>))"
proof (intro conjI impI)
  show "serve_crash since now st =
     (if restartCount st > 5 then Inl FatalExit
      else Inr \<lparr>lastCrashTime = now,
                restartCount = (if since - lastCrashTime st > 3600 * 1000000000 then 1
                                else restartCount st + 1)\<rparr>)"
    by (simp add: serve_crash_def Let_def Seconds_gt_hour)
next
  assume h: "since2 - now1 \<le> 600 * 1000000000 \<and> since3 - now2 > 3600 * 1000000000"
  define st0 where "st0 = \<lparr>lastCrashTime = start, restartCount = 0\<rparr>"
  have s1: "serve_crash since1 now1 st0 = Inr \<lparr>lastCrashTime = now1, restartCount = 1\<rparr>"
    by (simp add: serve_crash_def Let_def st0_def)
  have s2: "serve_crash since2 now2 \<lparr>lastCrashTime = now1, restartCount = 1\<rparr> =
            Inr \<lparr>lastCrashTime = now2, restartCount = 2\<rparr>"
    using h by (simp add: serve_crash_def Let_def Seconds_gt_hour)
  have s3: "serve_crash since3 now3 \<lparr>lastCrashTime = now2, restartCount = 2\<rparr> =
            Inr \<lparr>lastCrashTime = now3, restartCount = 1\<rparr>"
    using h by (simp add: serve_crash_def Let_def Seconds_gt_hour)
  show "serve start [ServeErr e1 since1 now1, ServeErr e2 since2 now2] =
        (ServeServing, \<lparr>lastCrashTime = now2, restartCount = 2\<rparr>)"
    unfolding serve_def st0_def [symmetric] by (simp add: s1 s2)
  show "serve start [ServeErr e1 since1 now1, ServeErr e2 since2 now2, ServeErr e3 since3 now3] =
        (ServeServing, \<lparr>lastCrashTime = now3, restartCount = 1\<rparr>)"
    unfolding serve_def st0_def [symmetric] by (simp add: s1 s2 s3)
qed

text \<open>
  A start at clock 0, a first failure after 5 minutes, a second after 10 minutes, a
  third 61 minutes after the second; each \<open>time.Now\<close> reads 1000 ns after its
  \<open>time.Since\<close>.
\<close>

theorem serve_crash_counter_witness:
  "(600000000000 - 300000001000 :: int) \<le> 600 * 1000000000 \<and>
   (4260000000000 - 600000001000 :: int) > 3600 * 1000000000 \<and>
   serve 0 [ServeErr ''closed'' 300000000000 300000001000,
            ServeErr ''closed'' 600000000000 600000001000] =
     (ServeServing, \<lparr>lastCrashTime = 600000001000, restartCount = 2\<rparr>) \<and>
   serve 0 [ServeErr ''closed'' 300000000000 300000001000,
            ServeErr ''closed'' 600000000000 600000001000,
            ServeErr ''closed'' 4260000000000 4260000001000] =
     (ServeServing, \<lparr>lastCrashTime = 4260000001000, restartCount = 1\<rparr>)"
  using serve_crash_counter [of 0 0 "\<lparr>lastCrashTime = 0, restartCount = 0\<rparr>"
      600000000000 300000001000 4260000000000 600000001000 0
      "''closed''" 300000000000 "''closed''" "''closed''" 4260000001000]
  by simp

text \<open>
  C8 (corrected), the claim as stated fails. Six failures one minute apart, from a start
  at clock 0: the sixth failure finds the counter at 5, which is not above 5, so the loop
  sets it to 6 and calls \<open>Serve\<close> again. The process has not exited.
\<close>

theorem sixth_rapid_failure_restarts:
  "serve 0 [ServeErr ''closed'' 60000000000 60000000000, ServeErr ''closed'' 120000000000 120000000000,
            ServeErr ''closed'' 180000000000 180000000000, ServeErr ''closed'' 240000000000 240000000000,
            ServeErr ''closed'' 300000000000 300000000000, ServeErr ''closed'' 360000000000 360000000000] =
     (ServeServing, \<lparr>lastCrashTime = 360000000000, restartCount = 6\<rparr>) \<and>
   fst (serve 0 [ServeErr ''closed'' 60000000000 60000000000, ServeErr ''closed'' 120000000000 120000000000,
            ServeErr ''closed'' 180000000000 180000000000, ServeErr ''closed'' 240000000000 240000000000,
            ServeErr ''closed'' 300000000000 300000000000, ServeErr ''closed'' 360000000000 360000000000])
     \<noteq> ServeFatal"
  by (simp add: serve_def serve_crash_def Let_def Seconds_gt_hour)

text \<open>
  C8 (corrected), the amended claim. The loop tests the restart counter before it updates
  it: a serve failure that finds the counter above 5 ends the process. From the start of
  the loop, up to six rapid failures (each within one hour of the previous) are each
  followed by another call of \<open>Serve\<close>, the counter being their number; the seventh
  rapid failure is the fatal exit.
\<close>

theorem serve_rapid_failures:
  "(5 < restartCount st \<longrightarrow> serve_crash since now st = Inl FatalExit) \<and>
   (rapid start rs \<and> length rs \<le> 6 \<longrightarrow>
      fst (serve start rs) = ServeServing \<and>
      restartCount (snd (serve start rs)) = int (length rs)) \<and>
   (rapid start rs \<and> 7 \<le> length rs \<longrightarrow> fst (serve start rs) = ServeFatal)"
proof (intro conjI impI)
  assume "5 < restartCount st"
  then show "serve_crash since now st = Inl FatalExit"
    by (rule serve_crash_fatal)
next
  assume h: "rapid start rs \<and> length rs \<le> 6"
  then have "fst (serve_loop rs \<lparr>lastCrashTime = start, restartCount = 0\<rparr>) = ServeServing \<and>
     restartCount (snd (serve_loop rs \<lparr>lastCrashTime = start, restartCount = 0\<rparr>)) =
       restartCount \<lparr>lastCrashTime = start, restartCount = 0\<rparr> + int (length rs)"
    by (intro serve_loop_rapid_restarts) simp_all
  then show "fst (serve start rs) = ServeServing"
    and "restartCount (snd (serve start rs)) = int (length rs)"
    by (simp_all add: serve_def)
next
  assume h: "rapid start rs \<and> 7 \<le> length rs"
  then have "fst (serve_loop rs \<lparr>lastCrashTime = start, restartCount = 0\<rparr>) = ServeFatal \<and>
     restartCount (snd (serve_loop rs \<lparr>lastCrashTime = start, restartCount = 0\<rparr>)) = 6"
    by (intro serve_loop_rapid_fatal) simp_all
  then show "fst (serve start rs) = ServeFatal"
    by (simp add: serve_def)
qed

theorem serve_rapid_failures_witness:
  "(5::int) < restartCount \<lparr>lastCrashTime = 360000000000, restartCount = 6\<rparr> \<and>
   serve_crash 420000000000 420000000000 \<lparr>lastCrashTime = 360000000000, restartCount = 6\<rparr> =
     Inl FatalExit \<and>
   rapid 0 (map (\<lambda>k. ServeErr ''closed'' (60000000000 * k) (60000000000 * k)) [1, 2, 3, 4, 5, 6]) \<and>
   fst (serve 0 (map (\<lambda>k. ServeErr ''closed'' (60000000000 * k) (60000000000 * k)) [1, 2, 3, 4, 5, 6])) =
     ServeServing \<and>
   restartCount (snd (serve 0
      (map (\<lambda>k. ServeErr ''closed'' (60000000000 * k) (60000000000 * k)) [1, 2, 3, 4, 5, 6]))) = 6 \<and>
   rapid 0 (map (\<lambda>k. ServeErr ''closed'' (60000000000 * k) (60000000000 * k)) [1, 2, 3, 4, 5, 6, 7]) \<and>
   fst (serve 0 (map (\<lambda>k. ServeErr ''closed'' (60000000000 * k) (60000000000 * k)) [1, 2, 3, 4, 5, 6, 7])) =
     ServeFatal"
proof -
  have r6: "rapid 0 (map (\<lambda>k. ServeErr ''closed'' (60000000000 * k) (60000000000 * k)) [1, 2, 3, 4, 5, 6])"
    by (simp add: Seconds_le_hour)
  have r7: "rapid 0 (map (\<lambda>k. ServeErr ''closed'' (60000000000 * k) (60000000000 * k)) [1, 2, 3, 4, 5, 6, 7])"
    by (simp add: Seconds_le_hour)
  have c: "(5::int) < restartCount \<lparr>lastCrashTime = 360000000000, restartCount = 6\<rparr>"
    by simp
  from serve_rapid_failures [of "\<lparr>lastCrashTime = 360000000000, restartCount = 6\<rparr>"
        420000000000 420000000000 0
        "map (\<lambda>k. ServeErr ''closed'' (60000000000 * k) (60000000000 * k)) [1, 2, 3, 4, 5, 6]"]
       serve_rapid_failures [of "\<lparr>lastCrashTime = 360000000000, restartCount = 6\<rparr>"
        420000000000 420000000000 0
        "map (\<lambda>k. ServeErr ''closed'' (60000000000 * k) (60000000000 * k)) [1, 2, 3, 4, 5, 6, 7]"]
       r6 r7 c
  show ?thesis by simp
qed

section \<open>\<open>Allocate\<close>\<close>

lemma Allocate_loop_map:
  "Allocate_loop reqs resps =
     resps\<lparr>ContainerResponses := ContainerResponses resps @
       map (\<lambda>req. \<lparr>Envs = [''MULTUS_NICS'' \<mapsto> Join (DevicesIDs req) '','']\<rparr>) reqs\<rparr>"
  by (induction reqs arbitrary: resps) (simp_all add: Let_def)

text \<open>
  \<open>Join\<close> without its recursion: nothing for no elements, and otherwise the first
  element followed by every later element with the separator in front of it.
\<close>

lemma Join_closed:
  "Join xs sep = (case xs of [] \<Rightarrow> [] | x # ys \<Rightarrow> x @ concat (map (\<lambda>y. sep @ y) ys))"
  by (induction xs sep rule: Join.induct) simp_all

text \<open>
  C9. \<open>Allocate\<close> returns no error and the server as it was; its response has one
  container response for each container request, in the order of the requests, and the
  environment of each is the map with the one key \<open>MULTUS_NICS\<close>, bound to the device
  IDs of that request joined with commas: the empty string for no IDs, and otherwise the
  first ID followed by each later ID with a comma in front of it. For the IDs
  \<open>["3", "7"]\<close> the value is \<open>"3,7"\<close>.
\<close>

theorem Allocate_envs:
  "snd (Allocate reqs s) = s \<and>
   fst (Allocate reqs s) =
     Inr \<lparr>ContainerResponses =
            map (\<lambda>req. \<lparr>Envs = [''MULTUS_NICS'' \<mapsto>
                    (case DevicesIDs req of
                       [] \<Rightarrow> []
                     | x # ys \<Rightarrow> x @ concat (map (\<lambda>y. '','' @ y) ys))]\<rparr>)
              (ContainerRequests reqs)\<rparr> \<and>
   list_all2 (\<lambda>req resp. dom (Envs resp) = {''MULTUS_NICS''} \<and>
                Envs resp ''MULTUS_NICS'' =
                  Some (case DevicesIDs req of
                          [] \<Rightarrow> []
                        | x # ys \<Rightarrow> x @ concat (map (\<lambda>y. '','' @ y) ys)))
     (ContainerRequests reqs)
     (ContainerResponses (projr (fst (Allocate reqs s)))) \<and>
   Allocate \<lparr>ContainerRequests = [\<lparr>DevicesIDs = [''3'', ''7'']\<rparr>]\<rparr> s =
     (Inr \<lparr>ContainerResponses = [\<lparr>Envs = [''MULTUS_NICS'' \<mapsto> ''3,7'']\<rparr>]\<rparr>, s) \<and>
   Allocate \<lparr>ContainerRequests = [\<lparr>DevicesIDs = []\<rparr>, \<lparr>DevicesIDs = [''12'']\<rparr>,
                                  \<lparr>DevicesIDs = [''0'', ''21'', ''39'']\<rparr>]\<rparr> s =
     (Inr \<lparr>ContainerResponses = [\<lparr>Envs = [''MULTUS_NICS'' \<mapsto> []]\<rparr>,
                                  \<lparr>Envs = [''MULTUS_NICS'' \<mapsto> ''12'']\<rparr>,
                                  \<lparr>Envs = [''MULTUS_NICS'' \<mapsto> ''0,21,39'']\<rparr>]\<rparr>, s)"
proof -
  have j: "Join ids '','' =
      (case ids of [] \<Rightarrow> [] | x # ys \<Rightarrow> x @ concat (map (\<lambda>y. '','' @ y) ys))" for ids
    by (simp add: Join_closed)
  have r: "fst (Allocate reqs s) =
     Inr \<lparr>ContainerResponses =
            map (\<lambda>req. \<lparr>Envs = [''MULTUS_NICS'' \<mapsto>
                    (case DevicesIDs req of
                       [] \<Rightarrow> []
                     | x # ys \<Rightarrow> x @ concat (map (\<lambda>y. '','' @ y) ys))]\<rparr>)
              (ContainerRequests reqs)\<rparr>"
    by (simp add: Allocate_def Allocate_loop_map j)
  have l: "list_all2 (\<lambda>req resp. dom (Envs resp) = {''MULTUS_NICS''} \<and>
                Envs resp ''MULTUS_NICS'' =
                  Some (case DevicesIDs req of
                          [] \<Rightarrow> []
                        | x # ys \<Rightarrow> x @ concat (map (\<lambda>y. '','' @ y) ys)))
     (ContainerRequests reqs)
     (ContainerResponses (projr (fst (Allocate reqs s))))"
    unfolding r by (simp add: list_all2_conv_all_nth)
  have e: "Allocate \<lparr>ContainerRequests = [\<lparr>DevicesIDs = [''3'', ''7'']\<rparr>]\<rparr> s =
     (Inr \<lparr>ContainerResponses = [\<lparr>Envs = [''MULTUS_NICS'' \<mapsto> ''3,7'']\<rparr>]\<rparr>, s)"
    by (simp add: Allocate_def)
  have f: "Allocate \<lparr>ContainerRequests = [\<lparr>DevicesIDs = []\<rparr>, \<lparr>DevicesIDs = [''12'']\<rparr>,
                                  \<lparr>DevicesIDs = [''0'', ''21'', ''39'']\<rparr>]\<rparr> s =
     (Inr \<lparr>ContainerResponses = [\<lparr>Envs = [''MULTUS_NICS'' \<mapsto> []]\<rparr>,
                                  \<lparr>Envs = [''MULTUS_NICS'' \<mapsto> ''12'']\<rparr>,
                                  \<lparr>Envs = [''MULTUS_NICS'' \<mapsto> ''0,21,39'']\<rparr>]\<rparr>, s)"
    by (simp add: Allocate_def)
  have u: "snd (Allocate reqs s) = s"
    by (simp add: Allocate_def)
  from u r l e f show ?thesis by blast
qed

end
